theory Spec2Isabelle
  imports Complex_Main "HOL-Library.Sublist"
begin

section \<open>Strings of the host language\<close>

text \<open>
  The program is TypeScript. Its strings are sequences of UTF-16 code units; the model
  uses \<^typ>\<open>string\<close>, whose characters are read as the code units U+0000 to U+00FF
  (Latin-1), and follows the platform functions exactly on that range:
  \<^item> \<open>toLowerCase\<close> maps A-Z and the upper-case letters U+00C0 to U+00DE (without the
    multiplication sign U+00D7) to the letter 32 places later, and nothing else;
  \<^item> the regular-expression class \<open>\s\<close> (and the set that \<open>trim\<close> strips) is TAB, LF, VT,
    FF, CR, SPACE and the no-break space U+00A0;
  \<^item> \<open>\d\<close> is 0-9 and \<open>\w\<close> is A-Z, a-z, 0-9 and the underscore.
  Numbers of the program are IEEE doubles; the model uses \<^typ>\<open>nat\<close> for lengths and
  indices and \<^typ>\<open>real\<close> for coordinates and for the two threshold tests; the offset
  translation of the span resolver, whose result depends on the rounding of doubles, is
  modelled with that rounding, and NaN is written out where the code can produce it (a
  division by a zero length).
\<close>

definition isUpper :: "char \<Rightarrow> bool" where
  "isUpper c =
     (let n = (of_char c :: nat)
      in (65 \<le> n \<and> n \<le> 90) \<or> (192 \<le> n \<and> n \<le> 222 \<and> n \<noteq> 215))"

definition toLowerChar :: "char \<Rightarrow> char" where
  "toLowerChar c = (if isUpper c then char_of ((of_char c :: nat) + 32) else c)"

definition toLowerCase :: "string \<Rightarrow> string" where
  "toLowerCase s = map toLowerChar s"

definition isSpace :: "char \<Rightarrow> bool" where
  "isSpace c = ((of_char c :: nat) \<in> {9, 10, 11, 12, 13, 32, 160})"

definition isDigit :: "char \<Rightarrow> bool" where
  "isDigit c = (let n = (of_char c :: nat) in 48 \<le> n \<and> n \<le> 57)"

definition isWordChar :: "char \<Rightarrow> bool" where
  "isWordChar c =
     (let n = (of_char c :: nat)
      in (48 \<le> n \<and> n \<le> 57) \<or> (65 \<le> n \<and> n \<le> 90) \<or> (97 \<le> n \<and> n \<le> 122) \<or> n = 95)"

text \<open>\<open>s.trim()\<close>: white space is removed from both ends.\<close>

definition trim :: "string \<Rightarrow> string" where
  "trim s = rev (dropWhile isSpace (rev (dropWhile isSpace s)))"

text \<open>
  \<open>h.indexOf(n)\<close>: the first position at which \<open>n\<close> occurs in \<open>h\<close>; the result -1 of the
  platform is \<open>None\<close>. The empty string occurs at position 0 of every string.
\<close>

fun indexOfFrom :: "string \<Rightarrow> string \<Rightarrow> nat \<Rightarrow> nat option" where
  "indexOfFrom [] n k = (if n = [] then Some k else None)"
| "indexOfFrom (h # hs) n k =
     (if take (length n) (h # hs) = n then Some k else indexOfFrom hs n (Suc k))"

definition indexOf :: "string \<Rightarrow> string \<Rightarrow> nat option" where
  "indexOf h n = indexOfFrom h n 0"

text \<open>\<open>h.includes(n)\<close> (the name \<open>includes\<close> is reserved in Isabelle): \<open>n\<close> occurs somewhere in \<open>h\<close>.\<close>

definition includesStr :: "string \<Rightarrow> string \<Rightarrow> bool" where
  "includesStr h n = (indexOf h n \<noteq> None)"

text \<open>\<open>s.substring(a, b)\<close>: the code units from the smaller to the larger index.\<close>

definition substring :: "string \<Rightarrow> nat \<Rightarrow> nat \<Rightarrow> string" where
  "substring s a b = take (max a b - min a b) (drop (min a b) s)"

text \<open>
  \<open>s.split(' ')\<close>: the pieces between single spaces; two adjacent spaces give an empty
  piece, and the empty string gives one empty piece.
\<close>

fun split_space :: "string \<Rightarrow> string list" where
  "split_space [] = [[]]"
| "split_space (c # cs) =
     (if c = CHR '' '' then [] # split_space cs
      else (case split_space cs of
              [] \<Rightarrow> [[c]]
            | w # ws \<Rightarrow> (c # w) # ws))"

text \<open>A number printed in a template string, in decimal.\<close>

fun showNat :: "nat \<Rightarrow> string" where
  "showNat n =
     (if n < 10 then [char_of (48 + n)]
      else showNat (n div 10) @ [char_of (48 + n mod 10)])"

declare showNat.simps [simp del]

section \<open>Text normalizer\<close>

text \<open>
  \<open>.replace(/\s+/g, ' ')\<close>: every maximal run of white space becomes one space.
\<close>

function replace_ws :: "string \<Rightarrow> string" where
  "replace_ws [] = []"
| "replace_ws (c # cs) =
     (if isSpace c then CHR '' '' # replace_ws (dropWhile isSpace cs)
      else c # replace_ws cs)"
  by pat_completeness auto
termination
  by (relation "measure length") (auto simp: length_dropWhile_le less_Suc_eq_le)

text \<open>
  \<open>.replace(/usd\s*/gi, 'usd ')\<close>: scanning from the left, every occurrence of the three
  letters (in either case, the expression has the flag \<open>i\<close>) together with the white space
  that follows it becomes \<open>usd\<close> and one space; the scan goes on after the match.
\<close>

definition usdAt :: "char \<Rightarrow> char \<Rightarrow> char \<Rightarrow> bool" where
  "usdAt a b c =
     ((a = CHR ''u'' \<or> a = CHR ''U'') \<and> (b = CHR ''s'' \<or> b = CHR ''S'')
      \<and> (c = CHR ''d'' \<or> c = CHR ''D''))"

function replace_usd :: "string \<Rightarrow> string" where
  "replace_usd (a # b # c # rest) =
     (if usdAt a b c then ''usd '' @ replace_usd (dropWhile isSpace rest)
      else a # replace_usd (b # c # rest))"
| "replace_usd [a, b] = [a, b]"
| "replace_usd [a] = [a]"
| "replace_usd [] = []"
  by pat_completeness auto
termination
  by (relation "measure length") (auto simp: length_dropWhile_le less_Suc_eq_le le_SucI)

text \<open>\<open>.replace(/\$/g, 'usd ')\<close>: every dollar sign becomes \<open>usd\<close> and one space.\<close>

definition replace_dollar :: "string \<Rightarrow> string" where
  "replace_dollar s = concat (map (\<lambda>c. if c = CHR ''$'' then ''usd '' else [c]) s)"

text \<open>
  \<open>.replace(/,(\d)/g, '$1')\<close>: a comma with a digit right after it is replaced by that
  digit alone; the scan goes on after the digit.
\<close>

fun replace_comma_digit :: "string \<Rightarrow> string" where
  "replace_comma_digit (a # b # rest) =
     (if a = CHR '','' \<and> isDigit b then b # replace_comma_digit rest
      else a # replace_comma_digit (b # rest))"
| "replace_comma_digit [a] = [a]"
| "replace_comma_digit [] = []"

text \<open>
  \<open>.replace(/[^\w\s.,;:!?$%()-]/g, '')\<close>: only word characters, white space and the
  listed punctuation stay.
\<close>

definition isKept :: "char \<Rightarrow> bool" where
  "isKept c = (isWordChar c \<or> isSpace c \<or> c \<in> set ''.,;:!?$%()-'')"

definition remove_special :: "string \<Rightarrow> string" where
  "remove_special s = filter isKept s"

definition normalizeForMatching :: "string \<Rightarrow> string" where
  "normalizeForMatching text0 =
     trim (remove_special (replace_comma_digit (replace_dollar
       (replace_usd (replace_ws (toLowerCase text0))))))"

section \<open>Fuzzy matcher\<close>

text \<open>
  \<open>text.match(/\d+\.?\d*/g) || []\<close>: scanning from the left, at a digit the match takes
  all the digits, then a dot if one follows, then all the digits after the dot; the scan
  goes on after the match. \<open>numberMatch\<close> is one match at a digit: the matched text and
  the rest of the input.
\<close>

definition numberMatch :: "string \<Rightarrow> string \<times> string" where
  "numberMatch s =
     (let ds = takeWhile isDigit s; r1 = dropWhile isDigit s
      in case r1 of
           [] \<Rightarrow> (ds, [])
         | d # r2 \<Rightarrow>
             if d = CHR ''.'' then (ds @ [d] @ takeWhile isDigit r2, dropWhile isDigit r2)
             else (ds, r1))"

function matchNumbers :: "string \<Rightarrow> string list" where
  "matchNumbers [] = []"
| "matchNumbers (c # cs) =
     (if isDigit c then fst (numberMatch (c # cs)) # matchNumbers (snd (numberMatch (c # cs)))
      else matchNumbers cs)"
  by pat_completeness auto
termination
proof (relation "measure length")
  show "wf (measure length)" by simp
next
  fix c :: char and cs :: string
  assume d: "isDigit c"
  have le: "\<And>xs. length (dropWhile isDigit xs) \<le> length xs"
    by (rule length_dropWhile_le)
  have "length (snd (numberMatch (c # cs))) \<le> length cs"
  proof (cases "dropWhile isDigit cs")
    case Nil
    show ?thesis by (simp add: numberMatch_def Let_def d Nil)
  next
    case (Cons e r2)
    have "length (dropWhile isDigit r2) \<le> length r2" by (rule le)
    moreover have "Suc (length r2) \<le> length cs"
      using le [of cs] Cons by simp
    ultimately show ?thesis by (simp add: numberMatch_def Let_def d Cons)
  qed
  then have "length (snd (numberMatch (c # cs))) < length (c # cs)" by simp
  then show "(snd (numberMatch (c # cs)), c # cs) \<in> measure length" by simp
next
  fix c :: char and cs :: string
  show "(cs, c # cs) \<in> measure length" by simp
qed

definition stoplist :: "string list" where
  "stoplist = [''this'', ''that'', ''with'', ''from'', ''have'', ''been'', ''were'', ''said'']"

definition extractKeyTerms :: "string \<Rightarrow> string list" where
  "extractKeyTerms text0 =
     (let numbers = matchNumbers text0;
          words = filter (\<lambda>word. length word \<ge> 4 \<and> word \<notin> set stoplist) (split_space text0)
      in numbers @ words)"

definition termsRelated :: "string \<Rightarrow> string \<Rightarrow> bool" where
  "termsRelated hTerm term0 = (includesStr hTerm term0 \<or> includesStr term0 hTerm)"

definition matchedTerms :: "string list \<Rightarrow> string list \<Rightarrow> string list" where
  "matchedTerms haystackTerms needleTerms =
     filter (\<lambda>term0. list_ex (\<lambda>hTerm. termsRelated hTerm term0) haystackTerms) needleTerms"

text \<open>
  The ratio is a quotient of two lengths compared with the literal 0.6. In doubles the
  comparison agrees with the exact one as long as the needle has fewer than \<open>2 ^ 50\<close> key
  terms, which no string of the platform reaches; the model compares exactly.
\<close>

definition fuzzyMatch :: "string \<Rightarrow> string \<Rightarrow> bool" where
  "fuzzyMatch haystack needle =
     (let normalizedHaystack = normalizeForMatching haystack;
          normalizedNeedle = normalizeForMatching needle
      in if includesStr normalizedHaystack normalizedNeedle then True
         else
           (let needleTerms = extractKeyTerms normalizedNeedle;
                haystackTerms = extractKeyTerms normalizedHaystack
            in if length needleTerms = 0 then False
               else
                 (let matched = matchedTerms haystackTerms needleTerms;
                      matchRatio = real (length matched) / real (length needleTerms)
                  in matchRatio \<ge> 6 / 10 \<or> length matched \<ge> 2)))"

section \<open>Data model\<close>

text \<open>
  The interfaces of the program. A text item's \<open>transform\<close> is the six-entry matrix of the
  text layer, \<open>[scaleX, skewY, skewX, scaleY, translateX, translateY]\<close>. Field names carry
  a prefix where the plain name is taken in Isabelle (\<open>id\<close>, \<open>text\<close>) or is used by two
  interfaces (\<open>width\<close>, \<open>height\<close>, \<open>pageIndex\<close>).
\<close>

type_synonym matrix = "real \<times> real \<times> real \<times> real \<times> real \<times> real"

record TextItem =
  str :: string
  transform :: matrix
  item_width :: real
  item_height :: real
  hasEOL :: "bool option"

record PageTextContent =
  pc_pageIndex :: int
  pc_text :: string
  pc_items :: "TextItem list"

record HighlightRect =
  rect_x :: real
  rect_y :: real
  rect_width :: real
  rect_height :: real

record Highlight =
  hl_id :: string
  hl_phrase :: string
  hl_pageIndex :: int
  hl_rects :: "HighlightRect list"
  hl_color :: "string option"

text \<open>
  The console is the only state the engine writes: a diagnostic is a level and a message,
  and each function returns the diagnostics it prints, in order, with its result.
\<close>

datatype level = LogLevel | WarnLevel | ErrorLevel

type_synonym diagnostic = "level \<times> string"

section \<open>Rect merger\<close>

text \<open>
  \<open>[...rects].sort((a, b) => a.y - b.y || a.x - b.x)\<close>: the comparator is the difference
  of the \<open>y\<close> values, or of the \<open>x\<close> values when that is zero; the platform's sort is
  stable, as the insertion sort here is.
\<close>

definition compareRects :: "HighlightRect \<Rightarrow> HighlightRect \<Rightarrow> real" where
  "compareRects a b =
     (if rect_y a - rect_y b \<noteq> 0 then rect_y a - rect_y b else rect_x a - rect_x b)"

fun insertRect :: "HighlightRect \<Rightarrow> HighlightRect list \<Rightarrow> HighlightRect list" where
  "insertRect r [] = [r]"
| "insertRect r (s # ss) = (if compareRects r s \<le> 0 then r # s # ss else s # insertRect r ss)"

definition sortRects :: "HighlightRect list \<Rightarrow> HighlightRect list" where
  "sortRects rects = foldr insertRect rects []"

text \<open>The loop of \<open>mergeRects\<close>: the current rectangle, the sorted rest, the output so far.\<close>

fun mergeLoop :: "HighlightRect \<Rightarrow> HighlightRect list \<Rightarrow> HighlightRect list \<Rightarrow> HighlightRect list" where
  "mergeLoop current [] merged = merged @ [current]"
| "mergeLoop current (next # rest) merged =
     (let sameY = \<bar>rect_y current - rect_y next\<bar> < 5;
          adjacent = rect_x next \<le> rect_x current + rect_width current + 10
      in if sameY \<and> adjacent then
           (let rightEdge = max (rect_x current + rect_width current) (rect_x next + rect_width next)
            in mergeLoop
                 \<lparr> rect_x = min (rect_x current) (rect_x next),
                   rect_y = min (rect_y current) (rect_y next),
                   rect_width = rightEdge - min (rect_x current) (rect_x next),
                   rect_height = max (rect_height current) (rect_height next) \<rparr>
                 rest merged)
         else mergeLoop next rest (merged @ [current]))"

definition mergeRects :: "HighlightRect list \<Rightarrow> HighlightRect list" where
  "mergeRects rects =
     (if length rects \<le> 1 then rects
      else (case sortRects rects of
              [] \<Rightarrow> []
            | current # rest \<Rightarrow> mergeLoop current rest []))"

section \<open>Fragment indexer and span resolver\<close>

definition endsWithSpace :: "string \<Rightarrow> bool" where
  "endsWithSpace s = (s \<noteq> [] \<and> last s = CHR '' '')"

definition startsWithSpace :: "string \<Rightarrow> bool" where
  "startsWithSpace s = (case s of [] \<Rightarrow> False | c # _ \<Rightarrow> c = CHR '' '')"

text \<open>
  The \<open>forEach\<close> over the items: the text built so far and, for each of its characters, the
  index of the item it came from. A space is added after an item that has a next item,
  when the item does not end with a space and the next does not start with one; the
  added space belongs to the item before it.
\<close>

fun buildFullText :: "TextItem list \<Rightarrow> nat \<Rightarrow> string \<times> nat list" where
  "buildFullText [] itemIndex = ([], [])"
| "buildFullText (item # rest) itemIndex =
     (let itemText = str item;
          sep = (case rest of
                   [] \<Rightarrow> False
                 | nextItem # _ \<Rightarrow> \<not> endsWithSpace itemText \<and> \<not> startsWithSpace (str nextItem));
          (fullText, charToItemMap) = buildFullText rest (Suc itemIndex)
      in (itemText @ (if sep then '' '' else []) @ fullText,
          replicate (length itemText) itemIndex @ (if sep then [itemIndex] else [])
            @ charToItemMap))"

definition phraseKeyTerms :: "string \<Rightarrow> string list" where
  "phraseKeyTerms normalizedPhrase =
     (let numbers = matchNumbers normalizedPhrase;
          keyWords = filter (\<lambda>word. length word \<ge> 4
                               \<and> word \<notin> set [''this'', ''that'', ''with'', ''from''])
                       (split_space normalizedPhrase)
      in numbers @ keyWords)"

text \<open>
  The loop over the key terms: the first term that occurs in the normalized text and
  whose context (50 characters before its first occurrence, 100 from it) holds at least
  half of all key terms, and at least one, gives the start and the length of the span.
\<close>

fun partialMatch :: "string \<Rightarrow> string list \<Rightarrow> string list \<Rightarrow> (nat \<times> nat) option" where
  "partialMatch normalizedFullText allKeyTerms [] = None"
| "partialMatch normalizedFullText allKeyTerms (term0 # rest) =
     (case indexOf normalizedFullText term0 of
        None \<Rightarrow> partialMatch normalizedFullText allKeyTerms rest
      | Some termIndex \<Rightarrow>
          (let contextStart = (if termIndex < 50 then 0 else termIndex - 50);
               contextEnd = min (length normalizedFullText) (termIndex + 100);
               context0 = substring normalizedFullText contextStart contextEnd;
               termsInContext = filter (\<lambda>t. includesStr context0 t) allKeyTerms
           in if real (length termsInContext) \<ge> max 1 (real (length allKeyTerms) * (5 / 10))
              then Some (termIndex, min 100 (length normalizedFullText - termIndex))
              else partialMatch normalizedFullText allKeyTerms rest))"

text \<open>Lines 176 to 218: the start and the length of the span in the normalized text.\<close>

definition locateSpan :: "string \<Rightarrow> string \<Rightarrow> string \<Rightarrow> diagnostic list \<times> (nat \<times> nat) option" where
  "locateSpan phrase normalizedPhrase normalizedFullText =
     (case indexOf normalizedFullText normalizedPhrase of
        Some startIndex \<Rightarrow> ([], Some (startIndex, length normalizedPhrase))
      | None \<Rightarrow>
          (case partialMatch normalizedFullText (phraseKeyTerms normalizedPhrase)
                  (phraseKeyTerms normalizedPhrase) of
             Some (termIndex, searchLength) \<Rightarrow>
               ([(LogLevel, ''Using partial match starting at '' @ [CHR 0x22]
                    @ substring normalizedFullText termIndex (termIndex + 30)
                    @ ''...'' @ [CHR 0x22])],
                Some (termIndex, searchLength))
           | None \<Rightarrow>
               ([(WarnLevel, ''Could not find phrase '' @ [CHR 0x22] @ phrase @ [CHR 0x22]
                    @ '' or its key terms in page text'')],
                None)))"

text \<open>
  The offset translation is computed in IEEE doubles, and its rounding decides the
  result, so it is modelled bit for bit. A positive double in the normal range is a pair
  \<open>(m, e)\<close> that stands for \<open>m * 2 ^ e\<close>, with a mantissa \<open>m\<close> of 53 bits. The lengths and
  indices of the program are whole numbers below \<open>2 ^ 53\<close>, which are doubles as they are,
  and their quotients and products stay in the normal range.
  \<open>roundHalfEven n d\<close> is the whole number nearest to \<open>n / d\<close>, the even one on a tie;
  \<open>roundToDouble n d\<close> is the double nearest to \<open>n / d\<close>: the exponent is chosen so that
  the scaled quotient lies between \<open>2 ^ 52\<close> and \<open>2 ^ 53\<close>, and the scaled quotient is
  rounded to a whole mantissa.
\<close>

function bitLength :: "int \<Rightarrow> nat" where
  "bitLength n = (if n \<le> 0 then 0 else Suc (bitLength (n div 2)))"
  by pat_completeness auto
termination
  by (relation "measure nat") auto

declare bitLength.simps [simp del]

definition roundHalfEven :: "int \<Rightarrow> int \<Rightarrow> int" where
  "roundHalfEven n d =
     (let q = n div d; r = n mod d
      in if 2 * r < d then q
         else if d < 2 * r then q + 1
         else if even q then q else q + 1)"

definition roundToDouble :: "int \<Rightarrow> int \<Rightarrow> int \<times> int" where
  "roundToDouble n d =
     (if n = 0 then (0, 0)
      else
        (let k = int (bitLength n) - int (bitLength d);
             atLeastPower = (if 0 \<le> k then d * 2 ^ nat k \<le> n else d \<le> n * 2 ^ nat (- k));
             e = (if atLeastPower then k else k - 1) - 52
         in (if 0 \<le> e then roundHalfEven n (d * 2 ^ nat e)
             else roundHalfEven (n * 2 ^ nat (- e)) d,
             e)))"

text \<open>The product of a whole number and a double, rounded to a double.\<close>

definition doubleTimes :: "int \<Rightarrow> int \<times> int \<Rightarrow> int \<times> int" where
  "doubleTimes i x =
     (case x of
        (m, e) \<Rightarrow>
          if 0 \<le> e then roundToDouble (i * m * 2 ^ nat e) 1
          else roundToDouble (i * m) (2 ^ nat (- e)))"

text \<open>\<open>Math.floor\<close> of a double that is not negative.\<close>

definition doubleFloor :: "int \<times> int \<Rightarrow> nat" where
  "doubleFloor x =
     (case x of
        (m, e) \<Rightarrow> nat (if 0 \<le> e then m * 2 ^ nat e else m div 2 ^ nat (- e)))"

text \<open>
  \<open>Math.floor(normIndex * (fullText.length / normalizedFullText.length))\<close>: the quotient
  of the two lengths is rounded to a double, the product with the index is rounded
  again, and the floor is taken. It is used only where the normalized text is not empty.
\<close>

definition normalizedToOriginal :: "nat \<Rightarrow> nat \<Rightarrow> nat \<Rightarrow> nat" where
  "normalizedToOriginal fullLength normalizedLength normIndex =
     doubleFloor
       (doubleTimes (int normIndex) (roundToDouble (int fullLength) (int normalizedLength)))"

text \<open>
  The items touched by the span, in ascending order and without repetition. With an empty
  normalized text the ratio is a division by zero, the translated start is NaN and the
  loop does not run.
\<close>

definition matchingItemIndices :: "nat \<Rightarrow> nat list \<Rightarrow> nat \<Rightarrow> nat \<Rightarrow> nat \<Rightarrow> nat list" where
  "matchingItemIndices fullLength charToItemMap normalizedLength startIndex searchLength =
     (if normalizedLength = 0 then []
      else
        (let originalStart = normalizedToOriginal fullLength normalizedLength startIndex;
             originalEnd =
               normalizedToOriginal fullLength normalizedLength (startIndex + searchLength)
         in sort (remdups (map (\<lambda>i. charToItemMap ! i)
                    [originalStart ..< min originalEnd (length charToItemMap)]))))"

text \<open>The set of items that \<open>findTextRects\<close> takes its rectangles from, if a span is found.\<close>

definition touchedItems :: "string \<Rightarrow> TextItem list \<Rightarrow> nat list option" where
  "touchedItems phrase items0 =
     (let normalizedPhrase = normalizeForMatching phrase;
          (fullText, charToItemMap) = buildFullText items0 0;
          normalizedFullText = normalizeForMatching fullText
      in case snd (locateSpan phrase normalizedPhrase normalizedFullText) of
           None \<Rightarrow> None
         | Some (startIndex, searchLength) \<Rightarrow>
             Some (matchingItemIndices (length fullText) charToItemMap
                     (length normalizedFullText) startIndex searchLength))"

definition rectOfItem :: "TextItem \<Rightarrow> HighlightRect" where
  "rectOfItem item =
     (case transform item of
        (scaleX, skewY, skewX, scaleY, translateX, translateY) \<Rightarrow>
          \<lparr> rect_x = translateX,
            rect_y = translateY,
            rect_width = item_width item,
            rect_height = (if item_height item = 0 then 12 else item_height item) \<rparr>)"

definition findTextRects :: "string \<Rightarrow> PageTextContent \<Rightarrow> diagnostic list \<times> HighlightRect list" where
  "findTextRects phrase pageContent =
     (let normalizedPhrase = normalizeForMatching phrase;
          (fullText, charToItemMap) = buildFullText (pc_items pageContent) 0;
          normalizedFullText = normalizeForMatching fullText
      in case locateSpan phrase normalizedPhrase normalizedFullText of
           (diags, None) \<Rightarrow> (diags, [])
         | (diags, Some (startIndex, searchLength)) \<Rightarrow>
             (let matchingItems =
                    map (\<lambda>index. pc_items pageContent ! index)
                      (matchingItemIndices (length fullText) charToItemMap
                         (length normalizedFullText) startIndex searchLength);
                  rects = map rectOfItem matchingItems
              in (diags, mergeRects rects)))"

section \<open>Page locator\<close>

text \<open>
  The page list is an array that may have empty or null entries (\<open>None\<close>); the hint is a
  number that need not be an index of the array, and reading the array at such a number
  gives \<open>undefined\<close>, which the loop skips like an empty entry.
\<close>

definition searchOrder :: "PageTextContent option list \<Rightarrow> int option \<Rightarrow> int list" where
  "searchOrder pageContents pageHint =
     (case pageHint of
        Some hint \<Rightarrow> hint # filter (\<lambda>i. i \<noteq> hint) (map int [0 ..< length pageContents])
      | None \<Rightarrow> map int [0 ..< length pageContents])"

definition pageAt :: "PageTextContent option list \<Rightarrow> int \<Rightarrow> PageTextContent option" where
  "pageAt pageContents i =
     (if 0 \<le> i \<and> i < int (length pageContents) then pageContents ! nat i else None)"

definition placeholderRect :: HighlightRect where
  "placeholderRect = \<lparr> rect_x = 50, rect_y = 100, rect_width = 500, rect_height = 30 \<rparr>"

definition fallbackWarning :: "string \<Rightarrow> int \<Rightarrow> diagnostic" where
  "fallbackWarning phrase pageIndex =
     (WarnLevel, ''Exact coordinates not found for '' @ [CHR 0x22] @ phrase @ [CHR 0x22]
        @ '' on page '' @ showNat (nat (pageIndex + 1)) @ '', using fallback'')"

text \<open>The loop of \<open>findPhrase\<close> over the search order, with the final not-found report.\<close>

fun searchPages :: "string \<Rightarrow> string \<Rightarrow> PageTextContent option list \<Rightarrow> int list
    \<Rightarrow> diagnostic list \<times> Highlight option" where
  "searchPages phrase ident pageContents [] =
     ([(ErrorLevel, ''Phrase '' @ [CHR 0x22] @ phrase @ [CHR 0x22] @ '' not found in any page'')],
      None)"
| "searchPages phrase ident pageContents (pageIndex # rest) =
     (case pageAt pageContents pageIndex of
        None \<Rightarrow> searchPages phrase ident pageContents rest
      | Some pageContent \<Rightarrow>
          (let checking = (LogLevel, ''Checking page '' @ showNat (nat (pageIndex + 1)) @ ''...'')
           in if fuzzyMatch (pc_text pageContent) phrase then
                (let found = (LogLevel, ''Found match on page '' @ showNat (nat (pageIndex + 1)));
                     (diags, rects) = findTextRects phrase pageContent
                 in if length rects > 0 then
                      ([checking, found] @ diags
                         @ [(LogLevel, ''Found '' @ showNat (length rects) @ '' highlight rectangles'')],
                       Some \<lparr> hl_id = ident, hl_phrase = phrase, hl_pageIndex = pageIndex,
                              hl_rects = rects, hl_color = Some ''#fef08a'' \<rparr>)
                    else
                      ([checking, found] @ diags @ [fallbackWarning phrase pageIndex],
                       Some \<lparr> hl_id = ident, hl_phrase = phrase, hl_pageIndex = pageIndex,
                              hl_rects = [placeholderRect], hl_color = Some ''#fef08a'' \<rparr>))
              else
                (let (diags, result) = searchPages phrase ident pageContents rest
                 in (checking # diags, result))))"

text \<open>
  \<open>findPhrase\<close> is declared \<open>async\<close> and awaits nothing: the value here is the value its
  promise resolves to, with the diagnostics printed on the way.
\<close>

definition findPhrase :: "string \<Rightarrow> string \<Rightarrow> PageTextContent option list \<Rightarrow> int option
    \<Rightarrow> diagnostic list \<times> Highlight option" where
  "findPhrase phrase ident pageContents pageHint =
     (let normalizedPhrase = normalizeForMatching phrase;
          (diags, result) =
            searchPages phrase ident pageContents (searchOrder pageContents pageHint)
      in ([(LogLevel, ''Searching for phrase: '' @ [CHR 0x22] @ phrase @ [CHR 0x22]),
           (LogLevel, ''Normalized: '' @ [CHR 0x22] @ normalizedPhrase @ [CHR 0x22])] @ diags,
          result))"

text \<open>
  The test the loop applies to an index of the search order: the page is there and its
  text fuzzy-matches the phrase.
\<close>

definition pageMatches :: "PageTextContent option list \<Rightarrow> string \<Rightarrow> int \<Rightarrow> bool" where
  "pageMatches pageContents phrase i =
     (case pageAt pageContents i of
        None \<Rightarrow> False
      | Some pageContent \<Rightarrow> fuzzyMatch (pc_text pageContent) phrase)"

section \<open>Key terms, as the specification describes them\<close>







section \<open>Shapes of normalized text\<close>

text \<open>
  Three patterns that a later pass of the normalizer would rewrite: two spaces side by
  side, a comma right before a digit, and the letters \<open>usd\<close> right before a character
  that is not a space. \<open>outChar\<close> is the alphabet of the normalizer's output.
\<close>

fun adjacentSpaces :: "string \<Rightarrow> bool" where
  "adjacentSpaces (a # b # rest) =
     ((a = CHR '' '' \<and> b = CHR '' '') \<or> adjacentSpaces (b # rest))"
| "adjacentSpaces [a] = False"
| "adjacentSpaces [] = False"

fun commaBeforeDigit :: "string \<Rightarrow> bool" where
  "commaBeforeDigit (a # b # rest) =
     ((a = CHR '','' \<and> isDigit b) \<or> commaBeforeDigit (b # rest))"
| "commaBeforeDigit [a] = False"
| "commaBeforeDigit [] = False"

fun usdBeforeNonSpace :: "string \<Rightarrow> bool" where
  "usdBeforeNonSpace (a # b # c # d # rest) =
     ((a = CHR ''u'' \<and> b = CHR ''s'' \<and> c = CHR ''d'' \<and> d \<noteq> CHR '' '')
      \<or> usdBeforeNonSpace (b # c # d # rest))"
| "usdBeforeNonSpace [a, b, c] = False"
| "usdBeforeNonSpace [a, b] = False"
| "usdBeforeNonSpace [a] = False"
| "usdBeforeNonSpace [] = False"

definition outChar :: "char \<Rightarrow> bool" where
  "outChar c = (isKept c \<and> c \<noteq> CHR ''$'' \<and> toLowerChar c = c \<and> (isSpace c \<longrightarrow> c = CHR '' ''))"

section \<open>Example pages\<close>

text \<open>
  A page whose three text items lie on one line, and a page with the same text whose
  text layer has no items.
\<close>

definition revenuePage :: PageTextContent where
  "revenuePage =
     \<lparr> pc_pageIndex = 0,
       pc_text = ''Revenue 12.8 billion'',
       pc_items =
         [\<lparr> str = ''Revenue'', transform = (1, 0, 0, 1, 72, 700), item_width = 40,
             item_height = 12, hasEOL = None \<rparr>,
          \<lparr> str = ''12.8'', transform = (1, 0, 0, 1, 116, 700), item_width = 20,
             item_height = 0, hasEOL = None \<rparr>,
          \<lparr> str = ''billion'', transform = (1, 0, 0, 1, 140, 700), item_width = 36,
             item_height = 12, hasEOL = Some True \<rparr>] \<rparr>"

definition bareRevenuePage :: PageTextContent where
  "bareRevenuePage =
     \<lparr> pc_pageIndex = 1, pc_text = ''Net Revenue: 12.8 billion'', pc_items = [] \<rparr>"

section \<open>Substring search\<close>

lemma take_length_prefix: "(take (length n) h = n) = prefix n h"
proof
  assume "take (length n) h = n"
  then show "prefix n h" by (metis take_is_prefix)
next
  assume "prefix n h"
  then obtain r where "h = n @ r" by (auto simp: prefix_def)
  then show "take (length n) h = n" by simp
qed

lemma indexOfFrom_sublist: "(indexOfFrom h n k \<noteq> None) = sublist n h"
proof (induction h arbitrary: k)
  case Nil
  then show ?case by simp
next
  case (Cons x xs)
  then show ?case by (simp add: sublist_Cons_right take_length_prefix)
qed

lemma includesStr_sublist: "includesStr h n = sublist n h"
  unfolding includesStr_def indexOf_def by (rule indexOfFrom_sublist)

section \<open>The offset translation in doubles\<close>

text \<open>
  \<open>roundToDouble\<close> is rounding to nearest: for positive \<open>n\<close> and \<open>d\<close> the mantissa has 53
  bits (it is \<open>2 ^ 53\<close> when the quotient rounds up to the next power of two) and the
  double is within half a unit of the last place of \<open>n / d\<close>; on a tie \<open>roundHalfEven\<close>
  takes the even mantissa.
\<close>

lemma bitLength_bounds:
  "0 < n \<Longrightarrow> 2 ^ (bitLength n - 1) \<le> n \<and> n < 2 ^ bitLength n"
proof (induction n rule: bitLength.induct)
  case (1 n)
  show ?case
  proof (cases "n div 2 = 0")
    case True
    then have "n = 1" using "1.prems" by linarith
    then show ?thesis by (simp add: bitLength.simps)
  next
    case False
    then have p: "0 < n div 2" using "1.prems" by linarith
    have ih: "2 ^ (bitLength (n div 2) - 1) \<le> n div 2 \<and> n div 2 < 2 ^ bitLength (n div 2)"
      using "1.IH" "1.prems" p by simp
    have b: "bitLength n = Suc (bitLength (n div 2))"
      using "1.prems" by (subst bitLength.simps) simp
    have pos: "0 < bitLength (n div 2)" using p by (subst bitLength.simps) simp
    then obtain j where j: "bitLength (n div 2) = Suc j" by (cases "bitLength (n div 2)") auto
    have "2 * (n div 2) \<le> n" by linarith
    moreover have "n < 2 * (n div 2) + 2" by linarith
    ultimately show ?thesis using ih unfolding b j by simp
  qed
qed

lemma roundHalfEven_near:
  assumes "0 \<le> n" and "0 < d"
  shows "2 * \<bar>n - roundHalfEven n d * d\<bar> \<le> d"
proof -
  define q where "q = n div d"
  define r where "r = n mod d"
  have n: "n = q * d + r" by (simp add: q_def r_def)
  have r: "0 \<le> r \<and> r < d" using assms(2) by (simp add: r_def)
  have a: "n - q * d = r" using n by simp
  have b: "n - (q + 1) * d = r - d" using n by (simp add: algebra_simps)
  show ?thesis
    unfolding roundHalfEven_def Let_def q_def [symmetric] r_def [symmetric]
    using r by (auto simp: a b)
qed

lemma two_powr_int:
  "2 powr real_of_int z = 2 ^ nat z / 2 ^ nat (- z)"
proof (cases z)
  case (nonneg a)
  have "2 powr real a = 2 ^ a" by (simp add: powr_realpow)
  then show ?thesis unfolding nonneg by simp
next
  case (neg a)
  have "2 powr (- real (Suc a)) = 1 / 2 ^ Suc a"
    by (simp only: powr_minus powr_realpow zero_less_numeral inverse_eq_divide)
  moreover have "nat (int a + 1) = Suc a" by linarith
  ultimately show ?thesis unfolding neg by simp
qed

lemma bitLength_real:
  assumes "0 < n"
  obtains j where "bitLength n = Suc j" and "2 ^ j \<le> real_of_int n"
    and "real_of_int n < 2 ^ Suc j"
proof -
  have b: "2 ^ (bitLength n - 1) \<le> n \<and> n < 2 ^ bitLength n" using assms by (rule bitLength_bounds)
  have "0 < bitLength n" using assms by (subst bitLength.simps) simp
  then obtain j where j: "bitLength n = Suc j" by (cases "bitLength n") auto
  have "(2::int) ^ j \<le> n" and "n < (2::int) ^ Suc j" using b unfolding j by simp_all
  then have "real_of_int ((2::int) ^ j) \<le> real_of_int n"
    and "real_of_int n < real_of_int ((2::int) ^ Suc j)" by linarith+
  then have "2 ^ j \<le> real_of_int n" and "real_of_int n < 2 ^ Suc j" by simp_all
  then show ?thesis using j that by blast
qed

lemma two_powr_diff_nat: "2 powr (real a - real b) = 2 ^ a / 2 ^ b"
  by (simp add: powr_diff powr_realpow)

lemma roundToDouble_exponent:
  assumes n: "0 < n" and d: "0 < d"
  defines "x \<equiv> real_of_int n / real_of_int d"
  defines "k \<equiv> int (bitLength n) - int (bitLength d)"
  shows "2 powr (real_of_int k - 1) < x \<and> x < 2 powr (real_of_int k + 1)"
proof -
  obtain jn where jn: "bitLength n = Suc jn" "2 ^ jn \<le> real_of_int n" "real_of_int n < 2 ^ Suc jn"
    using n by (rule bitLength_real)
  obtain jd where jd: "bitLength d = Suc jd" "2 ^ jd \<le> real_of_int d" "real_of_int d < 2 ^ Suc jd"
    using d by (rule bitLength_real)
  have rn: "0 < real_of_int n" and rd: "0 < real_of_int d" using n d by simp_all
  have k1: "real_of_int k + 1 = real (Suc jn) - real jd" by (simp add: k_def jn(1) jd(1))
  have k2: "real_of_int k - 1 = real jn - real (Suc jd)" by (simp add: k_def jn(1) jd(1))
  have "x < 2 ^ Suc jn / 2 ^ jd"
    unfolding x_def by (rule frac_less) (use jn(3) jd(2) rn rd in simp_all)
  then have up: "x < 2 powr (real_of_int k + 1)" unfolding k1 two_powr_diff_nat .
  have "2 ^ jn / 2 ^ Suc jd < x"
    unfolding x_def by (rule frac_less2) (use jn(2) jd(3) rn rd in simp_all)
  then have lo: "2 powr (real_of_int k - 1) < x" unfolding k2 two_powr_diff_nat .
  show ?thesis using lo up by simp
qed


lemma scaled_quotient:
  assumes "0 < d"
  shows "real_of_int (n * 2 ^ nat (- z)) / real_of_int (d * 2 ^ nat z)
           = (real_of_int n / real_of_int d) / 2 powr real_of_int z"
proof -
  have "(real_of_int n / real_of_int d) / 2 powr real_of_int z
          = (real_of_int n / real_of_int d) / (2 ^ nat z / 2 ^ nat (- z))"
    unfolding two_powr_int ..
  also have "\<dots> = (real_of_int n * 2 ^ nat (- z)) / (real_of_int d * 2 ^ nat z)"
    by simp
  finally show ?thesis by simp
qed

lemma scaled_compare:
  assumes n: "0 < n" and d: "0 < d"
  shows "(d * 2 ^ nat z \<le> n * 2 ^ nat (- z))
           = (2 powr real_of_int z \<le> real_of_int n / real_of_int d)"
proof -
  have dp: "0 < real_of_int (d * 2 ^ nat z)" using d by simp
  have "(d * 2 ^ nat z \<le> n * 2 ^ nat (- z))
          = (real_of_int (d * 2 ^ nat z) \<le> real_of_int (n * 2 ^ nat (- z)))"
    by (simp only: of_int_le_iff)
  also have "\<dots> = (1 \<le> real_of_int (n * 2 ^ nat (- z)) / real_of_int (d * 2 ^ nat z))"
    using dp by (simp only: le_divide_eq_1_pos)
  also have "\<dots> = (1 \<le> (real_of_int n / real_of_int d) / 2 powr real_of_int z)"
    unfolding scaled_quotient [OF d] ..
  also have "\<dots> = (2 powr real_of_int z \<le> real_of_int n / real_of_int d)"
    by (simp only: le_divide_eq_1_pos powr_gt_zero zero_less_numeral)
  finally show ?thesis .
qed

lemma roundToDouble_unfold:
  assumes n: "0 < n" and d: "0 < d"
  defines "k \<equiv> int (bitLength n) - int (bitLength d)"
  defines "e \<equiv> (if 2 powr real_of_int k \<le> real_of_int n / real_of_int d then k else k - 1) - 52"
  shows "roundToDouble n d = (roundHalfEven (n * 2 ^ nat (- e)) (d * 2 ^ nat e), e)"
proof -
  have t: "(if 0 \<le> k then d * 2 ^ nat k \<le> n else d \<le> n * 2 ^ nat (- k))
             = (2 powr real_of_int k \<le> real_of_int n / real_of_int d)"
    using scaled_compare [OF n d, of k] by (cases "0 \<le> k") simp_all
  have m: "(if 0 \<le> e then roundHalfEven n (d * 2 ^ nat e)
            else roundHalfEven (n * 2 ^ nat (- e)) d)
             = roundHalfEven (n * 2 ^ nat (- e)) (d * 2 ^ nat e)"
    by (cases "0 \<le> e") simp_all
  have "n \<noteq> 0" using n by simp
  then show ?thesis
    unfolding roundToDouble_def Let_def k_def [symmetric] t e_def [symmetric] m by simp
qed


lemma roundToDouble_nearest:
  assumes n: "0 < n" and d: "0 < d"
  shows "case roundToDouble n d of
           (m, e) \<Rightarrow>
             2 ^ 52 \<le> m \<and> m \<le> 2 ^ 53
             \<and> \<bar>real_of_int n / real_of_int d - real_of_int m * 2 powr real_of_int e\<bar>
                 \<le> 2 powr real_of_int e / 2"
proof -
  define x where "x = real_of_int n / real_of_int d"
  define k where "k = int (bitLength n) - int (bitLength d)"
  define lg where "lg = (if 2 powr real_of_int k \<le> x then k else k - 1)"
  define e where "e = lg - 52"
  define N where "N = n * 2 ^ nat (- e)"
  define D where "D = d * 2 ^ nat e"
  define m where "m = roundHalfEven N D"
  define X where "X = real_of_int N / real_of_int D"
  define p where "p = 2 powr real_of_int e"
  have r: "roundToDouble n d = (m, e)"
    unfolding m_def N_def D_def e_def lg_def x_def k_def by (rule roundToDouble_unfold [OF n d])
  have kb: "2 powr (real_of_int k - 1) < x \<and> x < 2 powr (real_of_int k + 1)"
    unfolding x_def k_def by (rule roundToDouble_exponent [OF n d])
  have lgb: "2 powr real_of_int lg \<le> x \<and> x < 2 powr (real_of_int lg + 1)"
  proof (cases "2 powr real_of_int k \<le> x")
    case True
    then have "lg = k" by (simp add: lg_def)
    then show ?thesis using True kb by simp
  next
    case False
    then have "lg = k - 1" by (simp add: lg_def)
    then show ?thesis using False kb by simp
  qed
  have ppos: "0 < p" by (simp add: p_def)
  have Xx: "X = x / p"
    unfolding X_def N_def D_def x_def p_def by (rule scaled_quotient [OF d])
  have l1: "2 powr real_of_int lg = 2 ^ 52 * p"
  proof -
    have "real_of_int lg = 52 + real_of_int e" by (simp add: e_def)
    then have "2 powr real_of_int lg = 2 powr 52 * 2 powr real_of_int e"
      by (simp only: powr_add)
    moreover have "(2::real) powr 52 = 2 ^ 52"
      using powr_realpow [of 2 52] by simp
    ultimately show ?thesis by (simp only: p_def)
  qed
  have l2: "2 powr (real_of_int lg + 1) = 2 ^ 53 * p"
  proof -
    have "real_of_int lg + 1 = 53 + real_of_int e" by (simp add: e_def)
    then have "2 powr (real_of_int lg + 1) = 2 powr 53 * 2 powr real_of_int e"
      by (simp only: powr_add)
    moreover have "(2::real) powr 53 = 2 ^ 53"
      using powr_realpow [of 2 53] by simp
    ultimately show ?thesis by (simp only: p_def)
  qed
  have Xlo: "2 ^ 52 \<le> X"
  proof -
    have "2 ^ 52 * p \<le> x" using lgb l1 by simp
    then show ?thesis unfolding Xx using ppos by (simp add: le_divide_eq)
  qed
  have Xhi: "X < 2 ^ 53"
  proof -
    have "x < 2 ^ 53 * p" using lgb l2 by simp
    then show ?thesis unfolding Xx using ppos by (simp add: divide_less_eq)
  qed
  have Npos: "0 \<le> N" using n by (simp add: N_def)
  have Dpos: "0 < D" using d by (simp add: D_def)
  have near_int: "2 * \<bar>N - m * D\<bar> \<le> D"
    unfolding m_def using Npos Dpos by (rule roundHalfEven_near)
  have near: "\<bar>X - real_of_int m\<bar> \<le> 1 / 2"
  proof -
    have "real_of_int (2 * \<bar>N - m * D\<bar>) \<le> real_of_int D" using near_int by (simp only: of_int_le_iff)
    then have a: "2 * \<bar>real_of_int N - real_of_int m * real_of_int D\<bar> \<le> real_of_int D" by simp
    have rD: "0 < real_of_int D" using Dpos by simp
    have "X - real_of_int m = (real_of_int N - real_of_int m * real_of_int D) / real_of_int D"
      unfolding X_def using rD by (simp add: field_simps)
    then have "\<bar>X - real_of_int m\<bar> = \<bar>real_of_int N - real_of_int m * real_of_int D\<bar> / real_of_int D"
      using rD by (simp add: abs_divide)
    also have "\<dots> \<le> 1 / 2" using a rD by (simp add: divide_le_eq)
    finally show ?thesis .
  qed
  have mlo: "2 ^ 52 \<le> m"
  proof -
    have "X - real_of_int m \<le> 1 / 2" using near by linarith
    then have "real_of_int (4503599627370495::int) < real_of_int m" using Xlo by simp
    then have "(4503599627370495::int) < m" by (simp only: of_int_less_iff)
    then show ?thesis by simp
  qed
  have mhi: "m \<le> 2 ^ 53"
  proof -
    have "real_of_int m - X \<le> 1 / 2" using near by linarith
    then have "real_of_int m < real_of_int (9007199254740993::int)" using Xhi by simp
    then have "m < (9007199254740993::int)" by (simp only: of_int_less_iff)
    then show ?thesis by simp
  qed
  have "x - real_of_int m * p = (X - real_of_int m) * p"
    unfolding Xx using ppos by (simp add: field_simps)
  then have "\<bar>x - real_of_int m * p\<bar> = \<bar>X - real_of_int m\<bar> * p"
    using ppos by (simp add: abs_mult)
  also have "\<dots> \<le> (1 / 2) * p" using near ppos by (simp only: mult_le_cancel_right_pos)
  finally have err: "\<bar>x - real_of_int m * p\<bar> \<le> p / 2" by simp
  show ?thesis unfolding r using mlo mhi err by (simp add: x_def p_def)
qed

text \<open>
  Three values of the translation. With equal lengths it is the identity; the other two
  are products that are whole numbers in exact arithmetic and fall short of them in
  doubles: \<open>23 * (13 / 23)\<close> is 12.999999999999998 and \<open>49 * (1 / 49)\<close> is
  0.9999999999999999.
\<close>

lemma normalizedToOriginal_values:
  "normalizedToOriginal 20 20 12 = 12"
  "normalizedToOriginal 13 23 23 = 12"
  "normalizedToOriginal 1 49 49 = 0"
  by code_simp+

section \<open>Properties of the normalizer\<close>

lemma toLowerChar_idem: "toLowerChar (toLowerChar c) = toLowerChar c"
  unfolding toLowerChar_def isUpper_def Let_def by (auto simp: of_char_mod_256)

lemma isSpace_space: "isSpace CHR '' ''"
  by (simp add: isSpace_def)

lemma lower_usd_space:
  "toLowerChar CHR ''u'' = CHR ''u''" "toLowerChar CHR ''s'' = CHR ''s''"
  "toLowerChar CHR ''d'' = CHR ''d''" "toLowerChar CHR '' '' = CHR '' ''"
  by (simp_all add: toLowerChar_def isUpper_def)

lemma lower_moves_USD:
  "toLowerChar CHR ''U'' \<noteq> CHR ''U''" "toLowerChar CHR ''S'' \<noteq> CHR ''S''"
  "toLowerChar CHR ''D'' \<noteq> CHR ''D''"
  by code_simp+

lemma lower_fixed_not_USD:
  "toLowerChar c = c \<Longrightarrow> c \<noteq> CHR ''U'' \<and> c \<noteq> CHR ''S'' \<and> c \<noteq> CHR ''D''"
  using lower_moves_USD by auto

lemma set_replace_ws: "set (replace_ws x) \<subseteq> {c \<in> set x. \<not> isSpace c} \<union> {CHR '' ''}"
  by (induction x rule: replace_ws.induct) (auto dest: set_dropWhileD)

lemma set_replace_usd: "set (replace_usd x) \<subseteq> set x \<union> set ''usd ''"
  by (induction x rule: replace_usd.induct) (auto dest: set_dropWhileD)

lemma set_replace_dollar: "set (replace_dollar x) \<subseteq> (set x - {CHR ''$''}) \<union> set ''usd ''"
  by (induction x) (auto simp: replace_dollar_def)

lemma set_replace_comma_digit: "set (replace_comma_digit x) \<subseteq> set x"
  by (induction x rule: replace_comma_digit.induct) auto

lemma set_trim: "set (trim x) \<subseteq> set x"
  by (auto simp: trim_def dest!: set_dropWhileD)


lemma isKept_space: "isKept CHR '' ''"
  by (simp add: isKept_def isSpace_def)

lemma outChar_usd_space:
  "outChar CHR ''u''" "outChar CHR ''s''" "outChar CHR ''d''" "outChar CHR '' ''"
  by (simp_all add: outChar_def isKept_def isWordChar_def isSpace_def lower_usd_space)

lemma normalize_chars:
  assumes "c \<in> set (normalizeForMatching s)"
  shows "outChar c"
proof -
  let ?s1 = "toLowerCase s"
  let ?s2 = "replace_ws ?s1"
  let ?s3 = "replace_usd ?s2"
  let ?s4 = "replace_dollar ?s3"
  let ?s5 = "replace_comma_digit ?s4"
  let ?Q = "\<lambda>c. toLowerChar c = c \<and> (isSpace c \<longrightarrow> c = CHR '' '')"
  have q1: "\<forall>c\<in>set ?s1. toLowerChar c = c"
    by (auto simp: toLowerCase_def toLowerChar_idem)
  have q2: "\<forall>c\<in>set ?s2. ?Q c"
    using q1 set_replace_ws [of ?s1] by (auto simp: lower_usd_space)
  have q3: "\<forall>c\<in>set ?s3. ?Q c"
    using q2 set_replace_usd [of ?s2] by (auto simp: lower_usd_space isSpace_def)
  have q4: "\<forall>c\<in>set ?s4. ?Q c \<and> c \<noteq> CHR ''$''"
    using q3 set_replace_dollar [of ?s3] by (auto simp: lower_usd_space isSpace_def)
  have q5: "\<forall>c\<in>set ?s5. ?Q c \<and> c \<noteq> CHR ''$''"
    using q4 set_replace_comma_digit [of ?s4] by blast
  have "c \<in> set (remove_special ?s5)"
    using assms set_trim unfolding normalizeForMatching_def by blast
  then have "c \<in> set ?s5 \<and> isKept c" by (simp add: remove_special_def)
  then show ?thesis using q5 by (simp add: outChar_def)
qed

lemma last_dropWhile_nonempty:
  "dropWhile P xs \<noteq> [] \<Longrightarrow> last (dropWhile P xs) = last xs"
  by (induction xs) (auto split: if_splits)

lemma trim_shape:
  "trim x = [] \<or> (\<not> isSpace (hd (trim x)) \<and> \<not> isSpace (last (trim x)))"
proof (cases "trim x = []")
  case True
  then show ?thesis by simp
next
  case False
  define y where "y = dropWhile isSpace x"
  define w where "w = dropWhile isSpace (rev y)"
  have t: "trim x = rev w" by (simp add: trim_def w_def y_def)
  then have wne: "w \<noteq> []" using False by simp
  then have "\<not> isSpace (hd w)" unfolding w_def by (rule hd_dropWhile)
  then have l: "\<not> isSpace (last (trim x))" using t by (simp add: last_rev)
  have "last w = last (rev y)" using wne unfolding w_def by (rule last_dropWhile_nonempty)
  then have lw: "last w = hd y" by (simp add: last_rev)
  have "y \<noteq> []" using wne unfolding w_def by auto
  then have "\<not> isSpace (hd y)" unfolding y_def by (rule hd_dropWhile)
  then have "\<not> isSpace (hd (trim x))" using t lw by (simp add: hd_rev)
  then show ?thesis using l by simp
qed

lemma trim_fixed:
  assumes "t = [] \<or> (\<not> isSpace (hd t) \<and> \<not> isSpace (last t))"
  shows "trim t = t" and "trim (t @ '' '') = t"
proof -
  have a: "dropWhile isSpace t = t"
    using assms by (auto simp: dropWhile_eq_self_iff)
  have b: "dropWhile isSpace (rev t) = rev t"
    using assms by (auto simp: dropWhile_eq_self_iff hd_rev)
  show "trim t = t" by (simp add: trim_def a b)
  have c: "dropWhile isSpace (t @ '' '') = (if t = [] then [] else t @ '' '')"
    using assms by (cases t) (auto simp: isSpace_space)
  show "trim (t @ '' '') = t"
    by (simp add: trim_def c b isSpace_space)
qed


lemma adjacentSpaces_tail: "\<not> adjacentSpaces (c # cs) \<Longrightarrow> \<not> adjacentSpaces cs"
  by (cases cs) auto

lemma commaBeforeDigit_tail: "\<not> commaBeforeDigit (c # cs) \<Longrightarrow> \<not> commaBeforeDigit cs"
  by (cases cs) auto

lemma usdBeforeNonSpace_tail: "\<not> usdBeforeNonSpace (c # cs) \<Longrightarrow> \<not> usdBeforeNonSpace cs"
proof (cases cs)
  case Nil
  then show ?thesis by simp
next
  case (Cons a as)
  assume h: "\<not> usdBeforeNonSpace (c # cs)"
  show ?thesis
  proof (cases as)
    case Nil
    then show ?thesis using Cons by simp
  next
    case (Cons b bs)
    then show ?thesis using h \<open>cs = a # as\<close> by (cases bs) auto
  qed
qed

lemma replace_ws_fixed:
  "\<forall>c\<in>set t. isSpace c \<longrightarrow> c = CHR '' '' \<Longrightarrow> \<not> adjacentSpaces t \<Longrightarrow> replace_ws t = t"
proof (induction t rule: replace_ws.induct)
  case 1
  then show ?case by simp
next
  case (2 c cs)
  have tl: "\<not> adjacentSpaces cs" using "2.prems"(2) by (rule adjacentSpaces_tail)
  have pl: "\<forall>c\<in>set cs. isSpace c \<longrightarrow> c = CHR '' ''" using "2.prems"(1) by simp
  show ?case
  proof (cases "isSpace c")
    case True
    then have c: "c = CHR '' ''" using "2.prems"(1) by simp
    have "cs = [] \<or> \<not> isSpace (hd cs)"
    proof (cases cs)
      case Nil
      then show ?thesis by simp
    next
      case (Cons d ds)
      then have "d \<noteq> CHR '' ''" using "2.prems"(2) c by auto
      then show ?thesis using Cons pl by auto
    qed
    then have d: "dropWhile isSpace cs = cs" by (simp add: dropWhile_eq_self_iff)
    have "replace_ws (dropWhile isSpace cs) = dropWhile isSpace cs"
      using "2.IH"(1) [OF True] tl pl unfolding d by simp
    then show ?thesis using True c d by simp
  next
    case False
    then show ?thesis using "2.IH"(2) tl pl by simp
  qed
qed

lemma replace_dollar_fixed: "CHR ''$'' \<notin> set x \<Longrightarrow> replace_dollar x = x"
  by (induction x) (auto simp: replace_dollar_def)

lemma replace_comma_digit_fixed: "\<not> commaBeforeDigit x \<Longrightarrow> replace_comma_digit x = x"
  by (induction x rule: replace_comma_digit.induct) auto

lemma commaBeforeDigit_snoc_space:
  "\<not> commaBeforeDigit t \<Longrightarrow> \<not> commaBeforeDigit (t @ '' '')"
  by (induction t rule: commaBeforeDigit.induct) (auto simp: isDigit_def)

lemma remove_special_fixed: "\<forall>c\<in>set x. isKept c \<Longrightarrow> remove_special x = x"
  by (simp add: remove_special_def)


lemma replace_usd_fixed:
  "\<forall>c\<in>set t. c \<noteq> CHR ''U'' \<and> c \<noteq> CHR ''S'' \<and> c \<noteq> CHR ''D'' \<and> (isSpace c \<longrightarrow> c = CHR '' '')
   \<Longrightarrow> \<not> adjacentSpaces t \<Longrightarrow> \<not> usdBeforeNonSpace t
   \<Longrightarrow> replace_usd t = t @ (if suffix ''usd'' t then '' '' else [])"
proof (induction t rule: replace_usd.induct)
  case (1 a b c rest)
  have chars: "\<forall>c\<in>set rest. c \<noteq> CHR ''U'' \<and> c \<noteq> CHR ''S'' \<and> c \<noteq> CHR ''D''
                 \<and> (isSpace c \<longrightarrow> c = CHR '' '')"
    using "1.prems"(1) by simp
  have adj: "\<not> adjacentSpaces (b # c # rest)" using "1.prems"(2) by (rule adjacentSpaces_tail)
  have adj': "\<not> adjacentSpaces rest"
    by (rule adjacentSpaces_tail [OF adjacentSpaces_tail [OF adj]])
  have ubn: "\<not> usdBeforeNonSpace (b # c # rest)" using "1.prems"(3) by (rule usdBeforeNonSpace_tail)
  have ubn': "\<not> usdBeforeNonSpace rest"
    by (rule usdBeforeNonSpace_tail [OF usdBeforeNonSpace_tail [OF ubn]])
  show ?case
  proof (cases "usdAt a b c")
    case True
    have abc: "a = CHR ''u'' \<and> b = CHR ''s'' \<and> c = CHR ''d''"
      using True "1.prems"(1) by (auto simp: usdAt_def)
    have step: "replace_usd (a # b # c # rest) = ''usd '' @ replace_usd (dropWhile isSpace rest)"
      using True by simp
    show ?thesis
    proof (cases rest)
      case Nil
      have "replace_usd (a # b # c # rest) = ''usd ''" using step unfolding Nil by simp
      moreover have "suffix ''usd'' (a # b # c # rest)" using abc Nil by simp
      ultimately show ?thesis using abc Nil by simp
    next
      case (Cons d rest')
      have d: "d = CHR '' ''"
      proof (rule ccontr)
        assume "d \<noteq> CHR '' ''"
        then have "usdBeforeNonSpace (a # b # c # rest)" using abc Cons by simp
        then show False using "1.prems"(3) by simp
      qed
      have "rest' = [] \<or> \<not> isSpace (hd rest')"
      proof (cases rest')
        case Nil
        then show ?thesis by simp
      next
        case (Cons e es)
        have "e \<noteq> CHR '' ''"
        proof
          assume "e = CHR '' ''"
          then have "adjacentSpaces rest" using \<open>rest = d # rest'\<close> d Cons by simp
          then show False using adj' by simp
        qed
        moreover have "isSpace e \<longrightarrow> e = CHR '' ''"
          using chars \<open>rest = d # rest'\<close> Cons by simp
        ultimately show ?thesis using Cons by simp
      qed
      then have "dropWhile isSpace rest' = rest'" by (simp add: dropWhile_eq_self_iff)
      then have dw: "dropWhile isSpace rest = rest'"
        using Cons d by (simp add: isSpace_space)
      have c': "\<forall>c\<in>set rest'. c \<noteq> CHR ''U'' \<and> c \<noteq> CHR ''S'' \<and> c \<noteq> CHR ''D''
                 \<and> (isSpace c \<longrightarrow> c = CHR '' '')"
        using chars Cons by simp
      have a': "\<not> adjacentSpaces rest'"
        using adj' unfolding Cons by (rule adjacentSpaces_tail)
      have u': "\<not> usdBeforeNonSpace rest'"
        using ubn' unfolding Cons by (rule usdBeforeNonSpace_tail)
      have ih: "replace_usd rest' = rest' @ (if suffix ''usd'' rest' then '' '' else [])"
        using "1.IH"(1) [OF True, unfolded dw, OF c' a' u'] .
      have sf: "suffix ''usd'' (a # b # c # rest) = suffix ''usd'' rest'"
        unfolding Cons using abc d by (simp add: suffix_Cons)
      have "replace_usd (a # b # c # rest) = ''usd '' @ rest' @ (if suffix ''usd'' rest' then '' '' else [])"
        unfolding step dw ih ..
      moreover have "a # b # c # rest = ''usd '' @ rest'" using abc d Cons by simp
      ultimately show ?thesis unfolding sf by simp
    qed
  next
    case False
    have ih: "replace_usd (b # c # rest)
            = (b # c # rest) @ (if suffix ''usd'' (b # c # rest) then '' '' else [])"
    proof (rule "1.IH"(2) [OF False _ adj ubn])
      show "\<forall>c\<in>set (b # c # rest). c \<noteq> CHR ''U'' \<and> c \<noteq> CHR ''S'' \<and> c \<noteq> CHR ''D''
                 \<and> (isSpace c \<longrightarrow> c = CHR '' '')"
        using "1.prems"(1) by simp
    qed
    have "''usd'' \<noteq> a # b # c # rest"
    proof
      assume "''usd'' = a # b # c # rest"
      then have "a = CHR ''u'' \<and> b = CHR ''s'' \<and> c = CHR ''d''" by simp
      then have "usdAt a b c" by (simp add: usdAt_def)
      then show False using False by simp
    qed
    then have sf: "suffix ''usd'' (a # b # c # rest) = suffix ''usd'' (b # c # rest)"
      by (subst suffix_Cons) auto
    have "replace_usd (a # b # c # rest) = a # replace_usd (b # c # rest)"
      using False by simp
    then show ?thesis unfolding ih sf by simp
  qed
next
  case (2 a b)
  then show ?case by (simp add: suffix_Cons)
next
  case (3 a)
  then show ?case by (simp add: suffix_Cons)
next
  case 4
  then show ?case by simp
qed


lemma late_steps_fixed:
  assumes oc: "\<forall>c\<in>set t. outChar c"
    and sh: "t = [] \<or> (\<not> isSpace (hd t) \<and> \<not> isSpace (last t))"
    and h2: "\<not> commaBeforeDigit t"
  shows "trim (remove_special (replace_comma_digit (replace_dollar t))) = t"
    and "trim (remove_special (replace_comma_digit (replace_dollar (t @ '' '')))) = t"
proof -
  have nd: "CHR ''$'' \<notin> set t"
  proof
    assume "CHR ''$'' \<in> set t"
    then have "outChar CHR ''$''" using oc by blast
    then show False by (simp add: outChar_def)
  qed
  have kp: "\<forall>c\<in>set t. isKept c" using oc by (simp add: outChar_def)
  have a1: "replace_dollar t = t" using nd by (rule replace_dollar_fixed)
  have a2: "replace_comma_digit t = t" using h2 by (rule replace_comma_digit_fixed)
  have a3: "remove_special t = t" using kp by (rule remove_special_fixed)
  have a4: "trim t = t" using sh by (rule trim_fixed(1))
  show "trim (remove_special (replace_comma_digit (replace_dollar t))) = t"
    unfolding a1 a2 a3 a4 ..
  have "CHR ''$'' \<notin> set (t @ '' '')" using nd by simp
  then have b1: "replace_dollar (t @ '' '') = t @ '' ''" by (rule replace_dollar_fixed)
  have "\<not> commaBeforeDigit (t @ '' '')" using h2 by (rule commaBeforeDigit_snoc_space)
  then have b2: "replace_comma_digit (t @ '' '') = t @ '' ''"
    by (rule replace_comma_digit_fixed)
  have "\<forall>c\<in>set (t @ '' ''). isKept c" using kp isKept_space by simp
  then have b3: "remove_special (t @ '' '') = t @ '' ''" by (rule remove_special_fixed)
  have b4: "trim (t @ '' '') = t" using sh by (rule trim_fixed(2))
  show "trim (remove_special (replace_comma_digit (replace_dollar (t @ '' '')))) = t"
    unfolding b1 b2 b3 b4 ..
qed

text \<open>
  Claim C1 as stated, that normalizing twice gives the same as normalizing once for every
  string, fails: the character \<open>#\<close> of \<open>a # b\<close> is removed after the white space has
  been collapsed, which leaves two spaces side by side, and the second pass collapses
  them.
\<close>

theorem normalize_not_idempotent_counterexample:
  "normalizeForMatching ''a # b'' = ''a  b''
   \<and> normalizeForMatching (normalizeForMatching ''a # b'') = ''a b''
   \<and> normalizeForMatching (normalizeForMatching ''a # b'') \<noteq> normalizeForMatching ''a # b''"
  by code_simp

text \<open>
  Claim C1, amended: normalizing twice gives the same as normalizing once for every
  string whose normalized form has no two spaces side by side, no comma right before a
  digit and no \<open>usd\<close> right before a character other than a space.
\<close>

theorem normalize_idempotent_on_clean_forms:
  "\<not> adjacentSpaces (normalizeForMatching s) \<Longrightarrow>
   \<not> commaBeforeDigit (normalizeForMatching s) \<Longrightarrow>
   \<not> usdBeforeNonSpace (normalizeForMatching s) \<Longrightarrow>
   normalizeForMatching (normalizeForMatching s) = normalizeForMatching s"
proof -
  define t where "t = normalizeForMatching s"
  assume "\<not> adjacentSpaces (normalizeForMatching s)"
    and "\<not> commaBeforeDigit (normalizeForMatching s)"
    and "\<not> usdBeforeNonSpace (normalizeForMatching s)"
  then have h1: "\<not> adjacentSpaces t" and h2: "\<not> commaBeforeDigit t"
    and h3: "\<not> usdBeforeNonSpace t"
    by (simp_all add: t_def)
  have oc: "\<forall>c\<in>set t. outChar c"
    unfolding t_def using normalize_chars by blast
  have sh: "t = [] \<or> (\<not> isSpace (hd t) \<and> \<not> isSpace (last t))"
    unfolding t_def normalizeForMatching_def by (rule trim_shape)
  have l1: "toLowerCase t = t"
    unfolding toLowerCase_def using oc by (intro map_idI) (simp add: outChar_def)
  have plain: "\<forall>c\<in>set t. isSpace c \<longrightarrow> c = CHR '' ''"
    using oc by (simp add: outChar_def)
  have l2: "replace_ws t = t"
    using plain h1 by (rule replace_ws_fixed)
  have "\<forall>c\<in>set t. c \<noteq> CHR ''U'' \<and> c \<noteq> CHR ''S'' \<and> c \<noteq> CHR ''D''
          \<and> (isSpace c \<longrightarrow> c = CHR '' '')"
    using oc lower_fixed_not_USD by (simp add: outChar_def)
  then have l3: "replace_usd t = t @ (if suffix ''usd'' t then '' '' else [])"
    using h1 h3 by (rule replace_usd_fixed)
  have "normalizeForMatching t = t"
  proof (cases "suffix ''usd'' t")
    case True
    then have "replace_usd t = t @ '' ''" using l3 by simp
    then show ?thesis
      unfolding normalizeForMatching_def l1 l2 using late_steps_fixed(2) [OF oc sh h2] by simp
  next
    case False
    then have "replace_usd t = t" using l3 by simp
    then show ?thesis
      unfolding normalizeForMatching_def l1 l2 using late_steps_fixed(1) [OF oc sh h2] by simp
  qed
  then show ?thesis by (simp add: t_def)
qed

theorem normalize_idempotent_on_clean_forms_witness:
  "\<not> adjacentSpaces (normalizeForMatching ''$12,800 USD'')
   \<and> \<not> commaBeforeDigit (normalizeForMatching ''$12,800 USD'')
   \<and> \<not> usdBeforeNonSpace (normalizeForMatching ''$12,800 USD'')
   \<and> normalizeForMatching ''$12,800 USD'' = ''usd 12800 usd''
   \<and> normalizeForMatching (normalizeForMatching ''$12,800 USD'')
       = normalizeForMatching ''$12,800 USD''"
proof -
  have a: "\<not> adjacentSpaces (normalizeForMatching ''$12,800 USD'')" by code_simp
  have b: "\<not> commaBeforeDigit (normalizeForMatching ''$12,800 USD'')" by code_simp
  have c: "\<not> usdBeforeNonSpace (normalizeForMatching ''$12,800 USD'')" by code_simp
  have d: "normalizeForMatching ''$12,800 USD'' = ''usd 12800 usd''" by code_simp
  have e: "normalizeForMatching (normalizeForMatching ''$12,800 USD'')
       = normalizeForMatching ''$12,800 USD''"
    by (rule normalize_idempotent_on_clean_forms [OF a b c])
  show ?thesis using a b c d e by blast
qed

text \<open>
  Claim C2, evaluated on the code. The claim says that the thousands-separator step
  removes a comma exactly when it stands between two digits. The expression of the code,
  \<open>/,(\d)/g\<close>, asks only for a digit after the comma: in \<open>a,5\<close> the comma follows a
  letter and is removed all the same, by the step and so by the whole normalizer.
\<close>

theorem comma_after_letter_removed:
  "replace_comma_digit ''a,5'' = ''a5'' \<and> normalizeForMatching ''a,5'' = ''a5''"
  by code_simp

text \<open>
  Claim C3: \<open>normalize("$12,800")\<close> and \<open>normalize("USD 12800")\<close> are the same string,
  namely \<open>usd 12800\<close>.
\<close>

theorem currency_canonical_form:
  "normalizeForMatching ''$12,800'' = normalizeForMatching ''USD 12800''
   \<and> normalizeForMatching ''USD 12800'' = ''usd 12800''"
  by code_simp

section \<open>Properties of the fuzzy matcher\<close>

text \<open>
  Claim C4: for all strings \<open>H\<close> and \<open>N\<close>, if the normalized \<open>N\<close> is a substring of the
  normalized \<open>H\<close>, then \<open>matches(H, N)\<close> is true.
\<close>

theorem substring_implies_fuzzyMatch:
  "sublist (normalizeForMatching needle) (normalizeForMatching haystack)
   \<Longrightarrow> fuzzyMatch haystack needle"
  by (simp add: fuzzyMatch_def Let_def includesStr_sublist)

theorem substring_implies_fuzzyMatch_witness:
  "sublist (normalizeForMatching ''usd 12800'') (normalizeForMatching ''Total: $12,800 net'')
   \<and> fuzzyMatch ''Total: $12,800 net'' ''usd 12800''"
proof -
  have "includesStr (normalizeForMatching ''Total: $12,800 net'')
          (normalizeForMatching ''usd 12800'')"
    by code_simp
  then have h: "sublist (normalizeForMatching ''usd 12800'')
                  (normalizeForMatching ''Total: $12,800 net'')"
    unfolding includesStr_sublist .
  show ?thesis using h substring_implies_fuzzyMatch [OF h] by (simp only: simp_thms)
qed






























section \<open>Properties of the rect merger\<close>

text \<open>
  Claim C8: two rectangles at \<open>y = 100\<close> and \<open>y = 101\<close> with the extents 0 to 50 and 55
  to 100 in \<open>x\<close> are merged into one rectangle from 0 to 100 (whichever of the two is at
  100, and in either order of the input, with the larger of the two heights); two
  rectangles at \<open>y = 100\<close> and \<open>y = 200\<close> come back both, unmerged, the lower \<open>y\<close> first,
  for all their \<open>x\<close> values, widths and heights.
\<close>

theorem mergeRects_same_line_and_far_apart:
  "mergeRects [\<lparr>rect_x = 0, rect_y = 100, rect_width = 50, rect_height = h1\<rparr>,
               \<lparr>rect_x = 55, rect_y = 101, rect_width = 45, rect_height = h2\<rparr>]
     = [\<lparr>rect_x = 0, rect_y = 100, rect_width = 100, rect_height = max h1 h2\<rparr>]
   \<and> mergeRects [\<lparr>rect_x = 55, rect_y = 101, rect_width = 45, rect_height = h2\<rparr>,
               \<lparr>rect_x = 0, rect_y = 100, rect_width = 50, rect_height = h1\<rparr>]
     = [\<lparr>rect_x = 0, rect_y = 100, rect_width = 100, rect_height = max h1 h2\<rparr>]
   \<and> mergeRects [\<lparr>rect_x = 0, rect_y = 101, rect_width = 50, rect_height = h1\<rparr>,
               \<lparr>rect_x = 55, rect_y = 100, rect_width = 45, rect_height = h2\<rparr>]
     = [\<lparr>rect_x = 0, rect_y = 100, rect_width = 100, rect_height = max h2 h1\<rparr>]
   \<and> mergeRects [\<lparr>rect_x = 55, rect_y = 100, rect_width = 45, rect_height = h2\<rparr>,
               \<lparr>rect_x = 0, rect_y = 101, rect_width = 50, rect_height = h1\<rparr>]
     = [\<lparr>rect_x = 0, rect_y = 100, rect_width = 100, rect_height = max h2 h1\<rparr>]
   \<and> mergeRects [\<lparr>rect_x = x1, rect_y = 100, rect_width = w1, rect_height = h1\<rparr>,
               \<lparr>rect_x = x2, rect_y = 200, rect_width = w2, rect_height = h2\<rparr>]
     = [\<lparr>rect_x = x1, rect_y = 100, rect_width = w1, rect_height = h1\<rparr>,
        \<lparr>rect_x = x2, rect_y = 200, rect_width = w2, rect_height = h2\<rparr>]
   \<and> mergeRects [\<lparr>rect_x = x2, rect_y = 200, rect_width = w2, rect_height = h2\<rparr>,
               \<lparr>rect_x = x1, rect_y = 100, rect_width = w1, rect_height = h1\<rparr>]
     = [\<lparr>rect_x = x1, rect_y = 100, rect_width = w1, rect_height = h1\<rparr>,
        \<lparr>rect_x = x2, rect_y = 200, rect_width = w2, rect_height = h2\<rparr>]"
  by (simp add: mergeRects_def sortRects_def compareRects_def Let_def)

section \<open>Properties of the span resolver\<close>

lemma findTextRects_touchedItems:
  "snd (findTextRects phrase pc) =
     (case touchedItems phrase (pc_items pc) of
        None \<Rightarrow> []
      | Some indices \<Rightarrow>
          mergeRects (map rectOfItem (map (\<lambda>index. pc_items pc ! index) indices)))"
proof (cases "buildFullText (pc_items pc) 0")
  case (Pair fullText charToItemMap)
  show ?thesis
  proof (cases "locateSpan phrase (normalizeForMatching phrase) (normalizeForMatching fullText)")
    case (Pair diags span)
    then show ?thesis using \<open>buildFullText (pc_items pc) 0 = (fullText, charToItemMap)\<close>
      by (cases span) (auto simp: findTextRects_def touchedItems_def Let_def)
  qed
qed

lemma buildFullText_revenue:
  assumes "str a = ''Revenue''" and "str b = ''12.8''" and "str c = ''billion''"
  shows "buildFullText [a, b, c] 0 =
           (''Revenue 12.8 billion'',
            [0, 0, 0, 0, 0, 0, 0, 0, 1, 1, 1, 1, 1, 2, 2, 2, 2, 2, 2, 2])"
  using assms by (simp add: endsWithSpace_def startsWithSpace_def Let_def)

text \<open>
  Claim C7: on a page whose items have the contents \<open>Revenue\<close>, \<open>12.8\<close> and \<open>billion\<close>
  (whatever their positions and sizes), resolving the phrase \<open>Revenue 12.8\<close> touches
  the items 0 and 1, and the rectangles of \<open>findTextRects\<close> are those of these two items,
  merged.
\<close>

theorem span_resolver_round_trip:
  "map str (pc_items pageContent) = [''Revenue'', ''12.8'', ''billion''] \<Longrightarrow>
   touchedItems ''Revenue 12.8'' (pc_items pageContent) = Some [0, 1]
   \<and> snd (findTextRects ''Revenue 12.8'' pageContent)
       = mergeRects [rectOfItem (pc_items pageContent ! 0),
                     rectOfItem (pc_items pageContent ! 1)]"
proof -
  assume "map str (pc_items pageContent) = [''Revenue'', ''12.8'', ''billion'']"
  then obtain i0 i1 i2 where items: "pc_items pageContent = [i0, i1, i2]"
    and s: "str i0 = ''Revenue''" "str i1 = ''12.8''" "str i2 = ''billion''"
    by (auto simp: map_eq_Cons_conv)
  have bf: "buildFullText (pc_items pageContent) 0 =
              (''Revenue 12.8 billion'',
               [0, 0, 0, 0, 0, 0, 0, 0, 1, 1, 1, 1, 1, 2, 2, 2, 2, 2, 2, 2])"
    unfolding items using s by (rule buildFullText_revenue)
  have t: "touchedItems ''Revenue 12.8'' (pc_items pageContent) = Some [0, 1]"
    unfolding touchedItems_def bf by code_simp
  show ?thesis using t by (simp add: findTextRects_touchedItems)
qed

theorem span_resolver_round_trip_witness:
  "map str (pc_items revenuePage) = [''Revenue'', ''12.8'', ''billion'']
   \<and> touchedItems ''Revenue 12.8'' (pc_items revenuePage) = Some [0, 1]
   \<and> snd (findTextRects ''Revenue 12.8'' revenuePage)
       = [\<lparr>rect_x = 72, rect_y = 700, rect_width = 64, rect_height = 12\<rparr>]"
proof -
  have m: "map str (pc_items revenuePage) = [''Revenue'', ''12.8'', ''billion'']"
    by (simp add: revenuePage_def)
  have r: "mergeRects [rectOfItem (pc_items revenuePage ! 0), rectOfItem (pc_items revenuePage ! 1)]
             = [\<lparr>rect_x = 72, rect_y = 700, rect_width = 64, rect_height = 12\<rparr>]"
    by (simp add: revenuePage_def rectOfItem_def mergeRects_def sortRects_def compareRects_def
          Let_def)
  show ?thesis using m span_resolver_round_trip [OF m] r by (simp only: simp_thms)
qed

section \<open>Properties of the page locator\<close>

lemma searchPages_result:
  "snd (searchPages phrase ident pcs order) =
     (case find (pageMatches pcs phrase) order of
        None \<Rightarrow> None
      | Some i \<Rightarrow>
          (case pageAt pcs i of
             None \<Rightarrow> None
           | Some pc \<Rightarrow>
               Some \<lparr> hl_id = ident, hl_phrase = phrase, hl_pageIndex = i,
                      hl_rects = (if snd (findTextRects phrase pc) = [] then [placeholderRect]
                                  else snd (findTextRects phrase pc)),
                      hl_color = Some ''#fef08a'' \<rparr>))"
proof (induction order)
  case Nil
  then show ?case by simp
next
  case (Cons i order)
  show ?case
  proof (cases "pageAt pcs i")
    case None
    then show ?thesis using Cons by (simp add: pageMatches_def)
  next
    case (Some pc)
    show ?thesis
    proof (cases "fuzzyMatch (pc_text pc) phrase")
      case True
      then show ?thesis using Some
        by (simp add: pageMatches_def Let_def case_prod_beta)
    next
      case False
      then show ?thesis using Some Cons
        by (simp add: pageMatches_def Let_def case_prod_beta)
    qed
  qed
qed

lemma findPhrase_result:
  "snd (findPhrase phrase ident pcs hint)
     = snd (searchPages phrase ident pcs (searchOrder pcs hint))"
  by (simp add: findPhrase_def Let_def case_prod_beta)

lemma findPhrase_diags:
  "set (fst (findPhrase phrase ident pcs hint)) =
     {(LogLevel, ''Searching for phrase: '' @ [CHR 0x22] @ phrase @ [CHR 0x22]),
      (LogLevel, ''Normalized: '' @ [CHR 0x22] @ normalizeForMatching phrase @ [CHR 0x22])}
     \<union> set (fst (searchPages phrase ident pcs (searchOrder pcs hint)))"
  by (simp add: findPhrase_def Let_def case_prod_beta)

lemma findTextRects_no_fallbackWarning:
  "fallbackWarning p j \<notin> set (fst (findTextRects phrase pc))"
  by (auto simp: findTextRects_def locateSpan_def fallbackWarning_def Let_def case_prod_beta
        split: option.splits prod.splits)

lemma searchPages_skip:
  "pageAt pcs k = None \<Longrightarrow>
   searchPages phrase ident pcs (k # order) = searchPages phrase ident pcs order"
  by simp

lemma searchPages_nomatch:
  "pageAt pcs k = Some pc \<Longrightarrow> \<not> fuzzyMatch (pc_text pc) phrase \<Longrightarrow>
   searchPages phrase ident pcs (k # order) =
     ((LogLevel, ''Checking page '' @ showNat (nat (k + 1)) @ ''...'')
        # fst (searchPages phrase ident pcs order),
      snd (searchPages phrase ident pcs order))"
  by (simp add: Let_def case_prod_beta)

lemma searchPages_match:
  "pageAt pcs k = Some pc \<Longrightarrow> fuzzyMatch (pc_text pc) phrase \<Longrightarrow>
   searchPages phrase ident pcs (k # order) =
     ([(LogLevel, ''Checking page '' @ showNat (nat (k + 1)) @ ''...''),
       (LogLevel, ''Found match on page '' @ showNat (nat (k + 1)))]
        @ fst (findTextRects phrase pc)
        @ [if snd (findTextRects phrase pc) = [] then fallbackWarning phrase k
           else (LogLevel, ''Found '' @ showNat (length (snd (findTextRects phrase pc)))
                   @ '' highlight rectangles'')],
      Some \<lparr> hl_id = ident, hl_phrase = phrase, hl_pageIndex = k,
             hl_rects = (if snd (findTextRects phrase pc) = [] then [placeholderRect]
                         else snd (findTextRects phrase pc)),
             hl_color = Some ''#fef08a'' \<rparr>)"
  by (simp add: Let_def case_prod_beta)

lemma fallbackWarning_not_log: "fallbackWarning p j \<noteq> (LogLevel, m)"
  by (simp add: fallbackWarning_def)

lemma searchPages_fallback_logged:
  "find (pageMatches pcs phrase) order = Some i \<Longrightarrow> pageAt pcs i = Some pc \<Longrightarrow>
   snd (findTextRects phrase pc) = [] \<Longrightarrow>
   fallbackWarning phrase i \<in> set (fst (searchPages phrase ident pcs order))"
proof (induction order)
  case Nil
  then show ?case by simp
next
  case (Cons k order)
  show ?case
  proof (cases "pageAt pcs k")
    case None
    then have "\<not> pageMatches pcs phrase k" by (simp add: pageMatches_def)
    then show ?thesis using Cons None by (simp del: searchPages.simps add: searchPages_skip)
  next
    case (Some pck)
    show ?thesis
    proof (cases "fuzzyMatch (pc_text pck) phrase")
      case True
      then have "pageMatches pcs phrase k" using Some by (simp add: pageMatches_def)
      then have "k = i" using Cons.prems by simp
      then have "pck = pc" using Some Cons.prems by simp
      then show ?thesis using Some True Cons.prems \<open>k = i\<close>
        by (simp del: searchPages.simps add: searchPages_match)
    next
      case False
      then have "\<not> pageMatches pcs phrase k" using Some by (simp add: pageMatches_def)
      then show ?thesis using Cons Some False
        by (simp del: searchPages.simps add: searchPages_nomatch)
    qed
  qed
qed

lemma searchPages_precise_not_logged:
  "find (pageMatches pcs phrase) order = Some i \<Longrightarrow> pageAt pcs i = Some pc \<Longrightarrow>
   snd (findTextRects phrase pc) \<noteq> [] \<Longrightarrow>
   fallbackWarning p j \<notin> set (fst (searchPages phrase ident pcs order))"
proof (induction order)
  case Nil
  then show ?case by simp
next
  case (Cons k order)
  show ?case
  proof (cases "pageAt pcs k")
    case None
    then have "\<not> pageMatches pcs phrase k" by (simp add: pageMatches_def)
    then show ?thesis using Cons None by (simp del: searchPages.simps add: searchPages_skip)
  next
    case (Some pck)
    show ?thesis
    proof (cases "fuzzyMatch (pc_text pck) phrase")
      case True
      then have "pageMatches pcs phrase k" using Some by (simp add: pageMatches_def)
      then have "k = i" using Cons.prems by simp
      then have "pck = pc" using Some Cons.prems by simp
      then show ?thesis using Some True Cons.prems \<open>k = i\<close>
        by (simp del: searchPages.simps
              add: searchPages_match fallbackWarning_not_log findTextRects_no_fallbackWarning)
    next
      case False
      then have "\<not> pageMatches pcs phrase k" using Some by (simp add: pageMatches_def)
      then show ?thesis using Cons Some False
        by (simp del: searchPages.simps add: searchPages_nomatch fallbackWarning_not_log)
    qed
  qed
qed

lemma searchOrder_covers:
  "pageAt pcs i = Some pc \<Longrightarrow> i \<in> set (searchOrder pcs hint)"
proof -
  assume a: "pageAt pcs i = Some pc"
  then have r: "0 \<le> i \<and> i < int (length pcs)"
    by (simp add: pageAt_def split: if_splits)
  then obtain n where n: "i = int n" using nonneg_int_cases by blast
  with r have "n < length pcs" by simp
  then have "i \<in> set (map int [0 ..< length pcs])" using n by simp
  then show ?thesis by (cases hint) (auto simp: searchOrder_def)
qed

text \<open>
  Claim C6: with a hint the search order is the hinted index and then the other indices of
  the page list in ascending order, without a hint it is the ascending order; the page
  of the result is the first index of that order whose page is present and fuzzy-matches
  the phrase; so when the hinted page matches, the result reports the hinted page, also
  when a page with a lower index matches too (the witness).
\<close>

theorem page_locator_first_match:
  "searchOrder pcs None = map int [0 ..< length pcs]
   \<and> searchOrder pcs (Some hint) = hint # filter (\<lambda>i. i \<noteq> hint) (map int [0 ..< length pcs])
   \<and> map_option hl_pageIndex (snd (findPhrase phrase ident pcs pageHint))
       = find (pageMatches pcs phrase) (searchOrder pcs pageHint)
   \<and> (pageMatches pcs phrase hint \<longrightarrow>
        map_option hl_pageIndex (snd (findPhrase phrase ident pcs (Some hint))) = Some hint)"
proof -
  have res: "\<And>pageHint. map_option hl_pageIndex (snd (findPhrase phrase ident pcs pageHint))
       = find (pageMatches pcs phrase) (searchOrder pcs pageHint)"
  proof -
    fix pageHint
    show "map_option hl_pageIndex (snd (findPhrase phrase ident pcs pageHint))
       = find (pageMatches pcs phrase) (searchOrder pcs pageHint)"
    proof (cases "find (pageMatches pcs phrase) (searchOrder pcs pageHint)")
      case None
      then show ?thesis by (simp add: findPhrase_result searchPages_result)
    next
      case (Some i)
      then have "pageMatches pcs phrase i" by (auto simp: find_Some_iff)
      then obtain pc where "pageAt pcs i = Some pc"
        by (auto simp: pageMatches_def split: option.splits)
      then show ?thesis using Some by (simp add: findPhrase_result searchPages_result)
    qed
  qed
  have "pageMatches pcs phrase hint \<Longrightarrow>
        find (pageMatches pcs phrase) (searchOrder pcs (Some hint)) = Some hint"
    by (simp add: searchOrder_def)
  then show ?thesis using res by (simp add: searchOrder_def)
qed

theorem page_locator_first_match_witness:
  "pageMatches [Some revenuePage, Some bareRevenuePage] ''Revenue 12.8'' 0
   \<and> pageMatches [Some revenuePage, Some bareRevenuePage] ''Revenue 12.8'' 1
   \<and> map_option hl_pageIndex
        (snd (findPhrase ''Revenue 12.8'' ''ref-1'' [Some revenuePage, Some bareRevenuePage] (Some 1)))
       = Some 1"
proof -
  have a: "pageMatches [Some revenuePage, Some bareRevenuePage] ''Revenue 12.8'' 0"
    by code_simp
  have b: "pageMatches [Some revenuePage, Some bareRevenuePage] ''Revenue 12.8'' 1"
    by code_simp
  show ?thesis
    using a b page_locator_first_match
      [where pcs = "[Some revenuePage, Some bareRevenuePage]" and hint = 1
         and phrase = "''Revenue 12.8''" and ident = "''ref-1''" and pageHint = None]
    by (simp only: simp_thms)
qed

text \<open>
  Claim C9: when the first page of the search order that passes the fuzzy match yields no
  rectangle, \<open>findPhrase\<close> still returns a result for that page, with the one placeholder
  rectangle at (50, 100) of size 500 by 30. The interface \<open>Highlight\<close> has no field that
  marks the result as approximate: the mark is the warning diagnostic that the fallback
  prints, and a run that returns resolved rectangles never prints such a warning, so the
  two outcomes differ in the diagnostics of the run.
\<close>

theorem partial_resolution_fallback:
  "find (pageMatches pcs phrase) (searchOrder pcs hint) = Some i \<Longrightarrow> pageAt pcs i = Some pc \<Longrightarrow>
   (if snd (findTextRects phrase pc) = [] then
      snd (findPhrase phrase ident pcs hint)
        = Some \<lparr> hl_id = ident, hl_phrase = phrase, hl_pageIndex = i,
                 hl_rects = [\<lparr>rect_x = 50, rect_y = 100, rect_width = 500, rect_height = 30\<rparr>],
                 hl_color = Some ''#fef08a'' \<rparr>
      \<and> fallbackWarning phrase i \<in> set (fst (findPhrase phrase ident pcs hint))
    else
      snd (findPhrase phrase ident pcs hint)
        = Some \<lparr> hl_id = ident, hl_phrase = phrase, hl_pageIndex = i,
                 hl_rects = snd (findTextRects phrase pc), hl_color = Some ''#fef08a'' \<rparr>
      \<and> (\<forall>p j. fallbackWarning p j \<notin> set (fst (findPhrase phrase ident pcs hint))))"
proof -
  assume f: "find (pageMatches pcs phrase) (searchOrder pcs hint) = Some i"
    and p: "pageAt pcs i = Some pc"
  show ?thesis
  proof (cases "snd (findTextRects phrase pc) = []")
    case True
    have "fallbackWarning phrase i \<in> set (fst (searchPages phrase ident pcs (searchOrder pcs hint)))"
      using f p True by (rule searchPages_fallback_logged)
    then show ?thesis using f p True
      by (simp add: findPhrase_result searchPages_result findPhrase_diags placeholderRect_def)
  next
    case False
    have "\<And>q j. fallbackWarning q j \<notin> set (fst (searchPages phrase ident pcs (searchOrder pcs hint)))"
      using f p False by (rule searchPages_precise_not_logged)
    then show ?thesis using f p False
      by (simp add: findPhrase_result searchPages_result findPhrase_diags fallbackWarning_not_log)
  qed
qed

theorem partial_resolution_fallback_witness:
  "find (pageMatches [Some bareRevenuePage] ''Revenue 12.8'') (searchOrder [Some bareRevenuePage] None)
     = Some 0
   \<and> pageAt [Some bareRevenuePage] 0 = Some bareRevenuePage
   \<and> snd (findTextRects ''Revenue 12.8'' bareRevenuePage) = []
   \<and> snd (findPhrase ''Revenue 12.8'' ''ref-1'' [Some bareRevenuePage] None)
       = Some \<lparr> hl_id = ''ref-1'', hl_phrase = ''Revenue 12.8'', hl_pageIndex = 0,
                hl_rects = [\<lparr>rect_x = 50, rect_y = 100, rect_width = 500, rect_height = 30\<rparr>],
                hl_color = Some ''#fef08a'' \<rparr>
   \<and> fallbackWarning ''Revenue 12.8'' 0
       \<in> set (fst (findPhrase ''Revenue 12.8'' ''ref-1'' [Some bareRevenuePage] None))"
proof -
  have f: "find (pageMatches [Some bareRevenuePage] ''Revenue 12.8'')
             (searchOrder [Some bareRevenuePage] None) = Some 0"
    by code_simp
  have p: "pageAt [Some bareRevenuePage] 0 = Some bareRevenuePage"
    by (simp add: pageAt_def)
  have e: "snd (findTextRects ''Revenue 12.8'' bareRevenuePage) = []"
    by code_simp
  show ?thesis
    using f p e partial_resolution_fallback [OF f p, where ident = "''ref-1''"]
    by (simp only: simp_thms if_True)
qed

text \<open>
  Claim C10: for every phrase, identifier, page list and hint, \<open>findPhrase\<close> returns
  either a highlight whose list of rectangles is not empty and whose page index is the
  index of a page that is present in the list (and fuzzy-matches the phrase), or the
  not-found value, and the latter only when no present page fuzzy-matches. All functions
  of the model are total, as the code is on values of its input types: it has no
  \<open>throw\<close>, and every array read is inside the bounds or checked.
\<close>

theorem findPhrase_result_well_formed:
  "(case snd (findPhrase phrase ident pcs hint) of
      None \<Rightarrow> (\<forall>i pc. pageAt pcs i = Some pc \<longrightarrow> \<not> fuzzyMatch (pc_text pc) phrase)
    | Some h \<Rightarrow>
        hl_rects h \<noteq> [] \<and> 0 \<le> hl_pageIndex h \<and> hl_pageIndex h < int (length pcs)
        \<and> (\<exists>pc. pcs ! nat (hl_pageIndex h) = Some pc \<and> fuzzyMatch (pc_text pc) phrase))"
proof (cases "find (pageMatches pcs phrase) (searchOrder pcs hint)")
  case None
  have "\<And>i pc. pageAt pcs i = Some pc \<Longrightarrow> \<not> fuzzyMatch (pc_text pc) phrase"
  proof -
    fix i pc
    assume a: "pageAt pcs i = Some pc"
    then have "i \<in> set (searchOrder pcs hint)" by (rule searchOrder_covers)
    then have "\<not> pageMatches pcs phrase i" using None by (auto simp: find_None_iff)
    then show "\<not> fuzzyMatch (pc_text pc) phrase" using a by (simp add: pageMatches_def)
  qed
  then show ?thesis using None by (simp add: findPhrase_result searchPages_result)
next
  case (Some i)
  then have m: "pageMatches pcs phrase i" by (auto simp: find_Some_iff)
  then obtain pc where pc: "pageAt pcs i = Some pc" and fm: "fuzzyMatch (pc_text pc) phrase"
    by (auto simp: pageMatches_def split: option.splits)
  from pc have r: "0 \<le> i \<and> i < int (length pcs) \<and> pcs ! nat i = Some pc"
    by (simp add: pageAt_def split: if_splits)
  show ?thesis using Some pc fm r by (simp add: findPhrase_result searchPages_result)
qed

theorem findPhrase_result_well_formed_witness:
  "snd (findPhrase ''Revenue 12.8'' ''ref-1'' [None, Some revenuePage] (Some 5))
     = Some \<lparr> hl_id = ''ref-1'', hl_phrase = ''Revenue 12.8'', hl_pageIndex = 1,
              hl_rects = [\<lparr>rect_x = 72, rect_y = 700, rect_width = 64, rect_height = 12\<rparr>],
              hl_color = Some ''#fef08a'' \<rparr>
   \<and> (\<exists>pc. [None, Some revenuePage] ! nat 1 = Some pc \<and> fuzzyMatch (pc_text pc) ''Revenue 12.8'')"
proof -
  have e: "snd (findPhrase ''Revenue 12.8'' ''ref-1'' [None, Some revenuePage] (Some 5))
     = Some \<lparr> hl_id = ''ref-1'', hl_phrase = ''Revenue 12.8'', hl_pageIndex = 1,
              hl_rects = [\<lparr>rect_x = 72, rect_y = 700, rect_width = 64, rect_height = 12\<rparr>],
              hl_color = Some ''#fef08a'' \<rparr>"
    by code_simp
  show ?thesis
    using e findPhrase_result_well_formed
      [where phrase = "''Revenue 12.8''" and ident = "''ref-1''"
         and pcs = "[None, Some revenuePage]" and hint = "Some 5"]
    by simp
qed

end
